theory Spec2Isabelle
  imports Main "HOL-Library.Sublist" "HOL-Library.Multiset"
begin

section \<open>gutengrep: whole sentences matching a regex in plain text files\<close>

text \<open>
  A shallow embedding of \<^verbatim>\<open>src/gutengrep.py\<close>. A Python string is the list of its
  characters (\<^typ>\<open>string\<close>, one \<^typ>\<open>char\<close> per character, so \<^const>\<open>length\<close> is
  Python's \<^verbatim>\<open>len\<close>); the bytes of a file are a \<^typ>\<open>string\<close> as well. Console output
  (\<^verbatim>\<open>print\<close>) is not part of the model.
\<close>

subsection \<open>Strings\<close>

definition dquote :: char where
  "dquote = CHR 0x22"

definition squote :: char where
  "squote = CHR 0x27"

definition startswith :: "string \<Rightarrow> string \<Rightarrow> bool" where
  \<comment> \<open>\<^verbatim>\<open>s.startswith(p)\<close>\<close>
  "startswith s p = (take (length p) s = p)"

definition endswith :: "string \<Rightarrow> string \<Rightarrow> bool" where
  \<comment> \<open>\<^verbatim>\<open>s.endswith(p)\<close>\<close>
  "endswith s p = (length p \<le> length s \<and> drop (length s - length p) s = p)"

subsection \<open>The corrector\<close>

text \<open>
  \<^verbatim>\<open>
  def correct_those(sentences):
      for i, sentence in enumerate(sentences):
          if sentence.startswith('"') and not sentence.endswith('"'):
              sentences[i] = sentence + '"'
          elif sentence.startswith("'") and not sentence.endswith("'"):
              sentences[i] = sentence + "'"

          if not sentence.startswith('"') and sentence.endswith('"'):
              sentences[i] = '"' + sentence
          elif not sentence.startswith("'") and sentence.endswith("'"):
              sentences[i] = "'" + sentence
      return sentences
  \<close>
  The loop variable \<^verbatim>\<open>sentence\<close> is bound once per iteration to the element read at
  index \<^verbatim>\<open>i\<close>; both \<^verbatim>\<open>if\<close> statements test it and build their new value from it, and
  each assignment overwrites slot \<^verbatim>\<open>i\<close> of the list.
\<close>

definition correct_step1 :: "nat \<Rightarrow> string \<Rightarrow> string list \<Rightarrow> string list" where
  "correct_step1 i sentence sentences =
     (if startswith sentence [dquote] \<and> \<not> endswith sentence [dquote]
        then sentences[i := sentence @ [dquote]]
      else if startswith sentence [squote] \<and> \<not> endswith sentence [squote]
        then sentences[i := sentence @ [squote]]
      else sentences)"

definition correct_step2 :: "nat \<Rightarrow> string \<Rightarrow> string list \<Rightarrow> string list" where
  "correct_step2 i sentence sentences =
     (if \<not> startswith sentence [dquote] \<and> endswith sentence [dquote]
        then sentences[i := [dquote] @ sentence]
      else if \<not> startswith sentence [squote] \<and> endswith sentence [squote]
        then sentences[i := [squote] @ sentence]
      else sentences)"

function correct_loop :: "nat \<Rightarrow> string list \<Rightarrow> string list" where
  "correct_loop i sentences =
     (if i < length sentences
      then correct_loop (Suc i)
             (correct_step2 i (sentences ! i) (correct_step1 i (sentences ! i) sentences))
      else sentences)"
  by pat_completeness auto
termination
  by (relation "measure (\<lambda>(i, sentences). length sentences - i)")
     (auto simp: correct_step1_def correct_step2_def)

declare correct_loop.simps [simp del]

definition correct_those :: "string list \<Rightarrow> string list" where
  "correct_those sentences = correct_loop 0 sentences"

text \<open>What one iteration leaves in slot \<open>i\<close>, as a function of the sentence read there.\<close>

definition corrected :: "string \<Rightarrow> string" where
  "corrected sentence =
     (if \<not> startswith sentence [dquote] \<and> endswith sentence [dquote] then [dquote] @ sentence
      else if \<not> startswith sentence [squote] \<and> endswith sentence [squote] then [squote] @ sentence
      else if startswith sentence [dquote] \<and> \<not> endswith sentence [dquote] then sentence @ [dquote]
      else if startswith sentence [squote] \<and> \<not> endswith sentence [squote] then sentence @ [squote]
      else sentence)"

subsection \<open>Collaborators, process state and failures\<close>

text \<open>
  The libraries the module calls are parameters of the model, collected in one record:
  nothing is assumed about them but their types.
\<close>

record env =
  glob :: "string \<Rightarrow> string list"
    \<comment> \<open>\<^verbatim>\<open>glob.glob(inspec)\<close>: the paths matching a pattern\<close>
  cp1252_decode :: "string \<Rightarrow> string option"
    \<comment> \<open>the \<^verbatim>\<open>cp1252\<close> codec on a file's bytes; \<open>None\<close> is \<^verbatim>\<open>UnicodeDecodeError\<close>\<close>
  punkt :: "(string \<Rightarrow> string list) option"
    \<comment> \<open>\<^verbatim>\<open>nltk.data.load('tokenizers/punkt/english.pickle')\<close>: the tokenizer's
        \<^verbatim>\<open>tokenize\<close>, or \<open>None\<close> when the resource is not installed\<close>
  re_search :: "string \<Rightarrow> string \<Rightarrow> nat \<Rightarrow> bool option"
    \<comment> \<open>\<^verbatim>\<open>re.search(regex, sentence, flags)\<close>: whether a match object is returned;
        \<open>None\<close> when the pattern does not compile\<close>
  pickle_dumps :: "string list \<Rightarrow> string"
    \<comment> \<open>the bytes \<^verbatim>\<open>pickle.dump(data, fp, -1)\<close> writes\<close>
  pickle_loads :: "string \<Rightarrow> string list option"
    \<comment> \<open>\<^verbatim>\<open>pickle.load(fp)\<close> on a file's bytes; \<open>None\<close> when they do not unpickle\<close>
  textwrap_fill :: "string \<Rightarrow> nat \<Rightarrow> string"
    \<comment> \<open>\<^verbatim>\<open>textwrap.fill(text, width=width)\<close> with empty indents\<close>
  utf8_encode :: "string \<Rightarrow> string"
    \<comment> \<open>\<^verbatim>\<open>out.encode("utf-8")\<close>\<close>

text \<open>
  What a run reads and changes: the regular files on disk with their bytes, the module
  global \<^verbatim>\<open>TOKENIZER\<close> (\<open>None\<close> until the tokenizer is loaded) and the module global
  \<^verbatim>\<open>args\<close>, which only the command-line entry point binds: \<open>None\<close> while the name is
  unbound, otherwise the value of \<^verbatim>\<open>args.correct\<close>.
\<close>

record world =
  fs :: "string \<rightharpoonup> string"
  TOKENIZER :: "(string \<Rightarrow> string list) option"
  args :: "bool option"

datatype error =
    SystemExit string
      \<comment> \<open>\<^verbatim>\<open>sys.exit(message)\<close>: the message goes to stderr, the exit status is 1\<close>
  | NameError string
      \<comment> \<open>a name read while unbound (for a local variable the subclass
          \<^verbatim>\<open>UnboundLocalError\<close>)\<close>
  | IOError string
      \<comment> \<open>opening a path that is not a regular file\<close>
  | LookupError
      \<comment> \<open>the punkt resource is not installed\<close>
  | re_error
      \<comment> \<open>the pattern is not a regular expression\<close>
  | UnpicklingError

type_synonym 'a run = "world \<Rightarrow> (error + 'a) \<times> world"

definition run_return :: "'a \<Rightarrow> 'a run" where
  "run_return x w = (Inr x, w)"

definition run_raise :: "error \<Rightarrow> 'a run" where
  "run_raise e w = (Inl e, w)"

definition run_bind :: "'a run \<Rightarrow> ('a \<Rightarrow> 'b run) \<Rightarrow> 'b run" where
  \<comment> \<open>one statement after another: an exception ends the run in the state it has reached\<close>
  "run_bind m k w = (case m w of (Inl e, w') \<Rightarrow> (Inl e, w') | (Inr x, w') \<Rightarrow> k x w')"

subsection \<open>The cache\<close>

definition SENTENCES_CACHE :: string where
  "SENTENCES_CACHE = ''sentences_cache.pkl''"

text \<open>
  \<^verbatim>\<open>
  def load_cache(filename):
      data = None
      if os.path.isfile(filename):
          with open(filename, 'rb') as fp:
              data = pickle.load(fp)
      return data

  def save_cache(filename, data):
      with open(filename, 'wb') as fp:
          pickle.dump(data, fp, -1)
  \<close>
\<close>

definition load_cache :: "env \<Rightarrow> string \<Rightarrow> string list option run" where
  "load_cache E filename w =
     (case fs w filename of
        None \<Rightarrow> (Inr None, w)
      | Some bytes \<Rightarrow>
          (case pickle_loads E bytes of
             None \<Rightarrow> (Inl UnpicklingError, w)
           | Some data \<Rightarrow> (Inr (Some data), w)))"

definition save_cache :: "env \<Rightarrow> string \<Rightarrow> string list \<Rightarrow> unit run" where
  "save_cache E filename data w = (Inr (), w\<lparr>fs := (fs w)(filename \<mapsto> pickle_dumps E data)\<rparr>)"

subsection \<open>Loading and segmenting\<close>

text \<open>
  \<^verbatim>\<open>
  def find_sentences_in_text(filename):
      global TOKENIZER
      try:
          with codecs.open(filename, encoding='cp1252') as fp:
              text = fp.read()
          if TOKENIZER is None:
              TOKENIZER = nltk.data.load('tokenizers/punkt/english.pickle')
          sentences = TOKENIZER.tokenize(text)
          return sentences
      except UnicodeDecodeError:
          return []
  \<close>
\<close>

definition find_sentences_in_text :: "env \<Rightarrow> string \<Rightarrow> string list run" where
  "find_sentences_in_text E filename w =
     (case fs w filename of
        None \<Rightarrow> (Inl (IOError filename), w)
      | Some bytes \<Rightarrow>
          (case cp1252_decode E bytes of
             None \<Rightarrow> (Inr [], w)
           | Some text \<Rightarrow>
               (case TOKENIZER w of
                  Some tokenize \<Rightarrow> (Inr (tokenize text), w)
                | None \<Rightarrow>
                    (case punkt E of
                       None \<Rightarrow> (Inl LookupError, w)
                     | Some tokenize \<Rightarrow>
                         (Inr (tokenize text), w\<lparr>TOKENIZER := Some tokenize\<rparr>)))))"

text \<open>
  \<^verbatim>\<open>
  def load_sentences_from_files(files, regex=None, flags=0):
      all_sentences = []
      for i, filename in enumerate(files):
          sentences = find_sentences_in_text(filename)
          all_sentences.extend(sentences)
      return all_sentences
  \<close>
  The parameters \<^verbatim>\<open>regex\<close> and \<^verbatim>\<open>flags\<close> are never read.
\<close>

fun load_sentences_loop :: "env \<Rightarrow> string list \<Rightarrow> string list \<Rightarrow> string list run" where
  "load_sentences_loop E [] all_sentences w = (Inr all_sentences, w)"
| "load_sentences_loop E (filename # files) all_sentences w =
     (case find_sentences_in_text E filename w of
        (Inl e, w') \<Rightarrow> (Inl e, w')
      | (Inr sentences, w') \<Rightarrow> load_sentences_loop E files (all_sentences @ sentences) w')"

definition load_sentences_from_files :: "env \<Rightarrow> string list \<Rightarrow> string list run" where
  "load_sentences_from_files E files = load_sentences_loop E files []"

subsection \<open>The matcher\<close>

text \<open>
  \<^verbatim>\<open>
  def find_matching_sentences(regex, sentences, flags=0):
      matching_sentences = []
      for sentence in sentences:
          if re.search(regex, sentence, flags):
              matching_sentences.append(sentence)
      return matching_sentences
  \<close>
\<close>

definition IGNORECASE :: nat where
  "IGNORECASE = 2"

fun find_matching_loop ::
  "env \<Rightarrow> string \<Rightarrow> nat \<Rightarrow> string list \<Rightarrow> string list \<Rightarrow> error + string list" where
  "find_matching_loop E regex flags [] matching_sentences = Inr matching_sentences"
| "find_matching_loop E regex flags (sentence # sentences) matching_sentences =
     (case re_search E regex sentence flags of
        None \<Rightarrow> Inl re_error
      | Some found \<Rightarrow>
          find_matching_loop E regex flags sentences
            (if found then matching_sentences @ [sentence] else matching_sentences))"

definition find_matching_sentences ::
  "env \<Rightarrow> string \<Rightarrow> string list \<Rightarrow> nat \<Rightarrow> error + string list" where
  "find_matching_sentences E regex sentences flags = find_matching_loop E regex flags sentences []"

subsection \<open>The reporter\<close>

text \<open>
  \<^verbatim>\<open>
  def format(text, indent=0, width=70):
      return textwrap.fill(text, width=width, initial_indent=" "*indent,
                           subsequent_indent=" "*indent)

  def output(sentences, filename):
      with open(filename, "w") as fp:
          for s in sentences:
              s = s.replace("\r\n", " ")
              out = format(s) + "\n\n"
              out = out.encode("utf-8")
              fp.write(out)
  \<close>
\<close>

fun replace_crlf :: "string \<Rightarrow> string" where
  \<comment> \<open>\<^verbatim>\<open>s.replace("\r\n", " ")\<close>\<close>
  "replace_crlf (c # d # s) =
     (if c = CHR 0x0D \<and> d = CHR 0x0A then CHR '' '' # replace_crlf s
      else c # replace_crlf (d # s))"
| "replace_crlf s = s"

definition format_text :: "env \<Rightarrow> string \<Rightarrow> string" where
  \<comment> \<open>\<^verbatim>\<open>format(text)\<close>, with the defaults \<^verbatim>\<open>indent=0\<close> and \<^verbatim>\<open>width=70\<close>\<close>
  "format_text E text = textwrap_fill E text 70"

fun output_loop :: "env \<Rightarrow> string list \<Rightarrow> string \<Rightarrow> string" where
  "output_loop E [] written = written"
| "output_loop E (s # sentences) written =
     output_loop E sentences
       (written @ utf8_encode E (format_text E (replace_crlf s) @ [CHR 0x0A, CHR 0x0A]))"

definition output_file :: "env \<Rightarrow> string list \<Rightarrow> string \<Rightarrow> unit run" where
  \<comment> \<open>\<^verbatim>\<open>output\<close> of the source\<close>
  "output_file E sentences filename w =
     (Inr (), w\<lparr>fs := (fs w)(filename \<mapsto> output_loop E sentences [])\<rparr>)"

text \<open>
  \<^verbatim>\<open>
  def insert_thing_into_filename(thing, filename):
      root, ext = os.path.splitext(filename)
      filename = root + thing + ext
      return filename
  \<close>
  \<^verbatim>\<open>os.path.splitext\<close> is the standard library's (\<^verbatim>\<open>posixpath\<close>, separator \<^verbatim>\<open>/\<close>):
  \<^verbatim>\<open>
  def _splitext(p, sep, altsep, extsep):
      sepIndex = p.rfind(sep)
      dotIndex = p.rfind(extsep)
      if dotIndex > sepIndex:
          # skip all leading dots
          filenameIndex = sepIndex + 1
          while filenameIndex < dotIndex:
              if p[filenameIndex] != extsep:
                  return p[:dotIndex], p[dotIndex:]
              filenameIndex += 1
      return p, ''
  \<close>
\<close>

fun rfind_from :: "char \<Rightarrow> string \<Rightarrow> int \<Rightarrow> int \<Rightarrow> int" where
  "rfind_from c [] i found = found"
| "rfind_from c (x # xs) i found = rfind_from c xs (i + 1) (if x = c then i else found)"

definition rfind :: "string \<Rightarrow> char \<Rightarrow> int" where
  \<comment> \<open>\<^verbatim>\<open>p.rfind(c)\<close>: the highest index of \<open>c\<close> in \<open>p\<close>, or \<open>-1\<close>\<close>
  "rfind p c = rfind_from c p 0 (- 1)"

definition splitext :: "string \<Rightarrow> string \<times> string" where
  "splitext p =
     (let sepIndex = rfind p CHR ''/'';
          dotIndex = rfind p CHR ''.''
      in if dotIndex > sepIndex
            \<and> list_ex (\<lambda>filenameIndex. p ! filenameIndex \<noteq> CHR ''.'')
                 [nat (sepIndex + 1) ..< nat dotIndex]
         then (take (nat dotIndex) p, drop (nat dotIndex) p)
         else (p, []))"

definition insert_thing_into_filename :: "string \<Rightarrow> string \<Rightarrow> string" where
  "insert_thing_into_filename thing filename =
     (case splitext filename of (root, ext) \<Rightarrow> root @ thing @ ext)"

subsection \<open>The orchestrator\<close>

text \<open>
  \<^verbatim>\<open>
  def gutengrep(regex, inspec, outfile, ignore_case, sort, cache, correct):
      if not inspec and not cache:
          sys.exit("Error: inspec and/or cache arguments needed")
      if inspec:
          files = glob.glob(inspec)
          if not files:
              sys.exit("No input files found matching " + inspec)
      if ignore_case:
          flags = re.IGNORECASE
      else:
          flags = 0
      sentences = None
      if cache:
          sentences = load_cache(SENTENCES_CACHE)
      if not sentences:
          sentences = load_sentences_from_files(files)
          if cache:
              save_cache(SENTENCES_CACHE, sentences)
      sentences = find_matching_sentences(regex, sentences, flags)
      if args.correct:
          sentences = correct_those(sentences)
      output(sentences, outfile)
      if sort:
          sentences.sort(key=len)
          outfile = insert_thing_into_filename("-sort", outfile)
          output(sentences, outfile)
  \<close>
  \<^verbatim>\<open>inspec\<close> is \<^verbatim>\<open>None\<close> or a string, and is true when it is a non-empty string. The
  local \<^verbatim>\<open>files\<close> is bound only when \<^verbatim>\<open>inspec\<close> is true (\<open>None\<close> below: unbound).
  \<^verbatim>\<open>sentences\<close> is false when it is \<^verbatim>\<open>None\<close> or the empty list. The function is
  modelled in four parts, in the order of the source: the files (the first two
  \<^verbatim>\<open>if\<close>s), the sentences (from \<^verbatim>\<open>sentences = None\<close> to \<^verbatim>\<open>save_cache\<close>), the filter, and
  the report (from \<^verbatim>\<open>if args.correct\<close> to the end).
\<close>

definition is_true :: "string option \<Rightarrow> bool" where
  "is_true inspec = (case inspec of None \<Rightarrow> False | Some p \<Rightarrow> p \<noteq> [])"

definition gutengrep_files :: "env \<Rightarrow> string option \<Rightarrow> bool \<Rightarrow> string list option run" where
  "gutengrep_files E inspec cache =
     (if \<not> is_true inspec \<and> \<not> cache
        then run_raise (SystemExit ''Error: inspec and/or cache arguments needed'')
      else
        (case inspec of
           None \<Rightarrow> run_return None
         | Some p \<Rightarrow>
             if p = [] then run_return None
             else
               (let files = glob E p
                in if files = []
                     then run_raise (SystemExit (''No input files found matching '' @ p))
                   else run_return (Some files))))"

definition gutengrep_sentences :: "env \<Rightarrow> bool \<Rightarrow> string list option \<Rightarrow> string list run" where
  "gutengrep_sentences E cache files =
     run_bind (if cache then load_cache E SENTENCES_CACHE else run_return None)
       (\<lambda>sentences.
          case sentences of
            Some (s # ss) \<Rightarrow> run_return (s # ss)
          | _ \<Rightarrow>
              run_bind
                (case files of
                   None \<Rightarrow> run_raise (NameError ''files'')
                 | Some fl \<Rightarrow> load_sentences_from_files E fl)
                (\<lambda>sentences.
                   run_bind
                     (if cache then save_cache E SENTENCES_CACHE sentences else run_return ())
                     (\<lambda>_. run_return sentences)))"

definition gutengrep_filter ::
  "env \<Rightarrow> string \<Rightarrow> string option \<Rightarrow> bool \<Rightarrow> bool \<Rightarrow> string list run" where
  "gutengrep_filter E regex inspec ignore_case cache =
     run_bind (gutengrep_files E inspec cache)
       (\<lambda>files.
          let flags = (if ignore_case then IGNORECASE else 0)
          in run_bind (gutengrep_sentences E cache files)
               (\<lambda>sentences w. (find_matching_sentences E regex sentences flags, w)))"

definition gutengrep_report :: "env \<Rightarrow> string list \<Rightarrow> string \<Rightarrow> bool \<Rightarrow> unit run" where
  "gutengrep_report E sentences outfile do_sort =
     run_bind
       (\<lambda>w. case args w of
               None \<Rightarrow> (Inl (NameError ''args''), w)
             | Some args_correct \<Rightarrow>
                 (Inr (if args_correct then correct_those sentences else sentences), w))
       (\<lambda>sentences.
          run_bind (output_file E sentences outfile)
            (\<lambda>_. if do_sort
                  then output_file E (sort_key length sentences)
                         (insert_thing_into_filename ''-sort'' outfile)
                  else run_return ()))"

definition gutengrep ::
  "env \<Rightarrow> string \<Rightarrow> string option \<Rightarrow> string \<Rightarrow> bool \<Rightarrow> bool \<Rightarrow> bool \<Rightarrow> bool \<Rightarrow> unit run" where
  "gutengrep E regex inspec outfile ignore_case do_sort cache correct =
     run_bind (gutengrep_filter E regex inspec ignore_case cache)
       (\<lambda>sentences. gutengrep_report E sentences outfile do_sort)"

subsection \<open>A small environment to run the model in\<close>

text \<open>
  Stand-ins for the libraries, simple enough to evaluate: a decoder that rejects the byte
  \<open>0x81\<close> (which \<^verbatim>\<open>cp1252\<close> leaves undefined) and maps every other byte to itself, a
  segmenter that ends a sentence at each full stop, a search for a literal substring, a
  serializer that terminates each string with a zero byte, no wrapping, and an encoder
  that maps every character to itself. Two patterns match files.
\<close>

fun tokenize_at_stops :: "string \<Rightarrow> string \<Rightarrow> string list" where
  "tokenize_at_stops cur [] = (if cur = [] then [] else [rev cur])"
| "tokenize_at_stops cur (c # cs) =
     (if c = CHR ''.'' then rev (c # cur) # tokenize_at_stops [] cs
      else tokenize_at_stops (c # cur) cs)"

fun contains :: "string \<Rightarrow> string \<Rightarrow> bool" where
  "contains [] p = (p = [])"
| "contains (c # s) p = (startswith (c # s) p \<or> contains s p)"

fun split_at_zero :: "string \<Rightarrow> string \<Rightarrow> string list option" where
  "split_at_zero cur [] = (if cur = [] then Some [] else None)"
| "split_at_zero cur (c # cs) =
     (if c = CHR 0x00 then map_option (Cons (rev cur)) (split_at_zero [] cs)
      else split_at_zero (c # cur) cs)"

definition demo_env :: env where
  "demo_env =
     \<lparr>glob = (\<lambda>p. if p = ''*.txt'' then [''a.txt'', ''b.txt'']
                  else if p = ''b.*'' then [''b.txt'']
                  else []),
      cp1252_decode = (\<lambda>bytes. if CHR 0x81 \<in> set bytes then None else Some bytes),
      punkt = Some (tokenize_at_stops []),
      re_search = (\<lambda>regex sentence flags. Some (contains sentence regex)),
      pickle_dumps = (\<lambda>data. concat (map (\<lambda>s. s @ [CHR 0x00]) data)),
      pickle_loads = split_at_zero [],
      textwrap_fill = (\<lambda>text width. text),
      utf8_encode = (\<lambda>out. out)\<rparr>"

definition demo_world :: world where
  \<comment> \<open>two input files, the first of which does not decode; no cache; \<^verbatim>\<open>args.correct\<close>
      is false\<close>
  "demo_world =
     \<lparr>fs = [''a.txt'' \<mapsto> [CHR ''x'', CHR 0x81], ''b.txt'' \<mapsto> ''The whale. A ship.''],
      TOKENIZER = None,
      args = Some False\<rparr>"

definition cached_world :: "string list \<Rightarrow> world" where
  \<comment> \<open>the same, with a cache file that holds \<open>record\<close>\<close>
  "cached_world record =
     demo_world\<lparr>fs := (fs demo_world)(SENTENCES_CACHE \<mapsto> pickle_dumps demo_env record)\<rparr>"

section \<open>Properties\<close>

subsection \<open>Auxiliary facts\<close>

lemmas run_defs = run_bind_def run_return_def run_raise_def

lemma length_correct_step1 [simp]: "length (correct_step1 i s xs) = length xs"
  by (simp add: correct_step1_def)

lemma length_correct_step2 [simp]: "length (correct_step2 i s xs) = length xs"
  by (simp add: correct_step2_def)

lemma correct_steps_update:
  "i < length xs \<Longrightarrow>
   correct_step2 i (xs ! i) (correct_step1 i (xs ! i) xs) = xs[i := corrected (xs ! i)]"
  by (simp add: correct_step1_def correct_step2_def corrected_def)

lemma correct_loop_map:
  "i \<le> length xs \<Longrightarrow> correct_loop i xs = take i xs @ map corrected (drop i xs)"
proof (induction i xs rule: correct_loop.induct)
  case (1 i sentences)
  show ?case
  proof (cases "i < length sentences")
    case True
    have "correct_loop i sentences
          = correct_loop (Suc i) (sentences[i := corrected (sentences ! i)])"
      using True by (subst correct_loop.simps) (simp add: correct_steps_update)
    also have "\<dots> = take (Suc i) (sentences[i := corrected (sentences ! i)])
                    @ map corrected (drop (Suc i) (sentences[i := corrected (sentences ! i)]))"
      using "1.IH" [OF True] True by (simp add: correct_steps_update)
    also have "\<dots> = take i sentences @ map corrected (drop i sentences)"
      using True by (simp add: take_Suc_conv_app_nth Cons_nth_drop_Suc [symmetric])
    finally show ?thesis .
  next
    case False
    with "1.prems" show ?thesis by (subst correct_loop.simps) simp
  qed
qed

lemma correct_those_map: "correct_those xs = map corrected xs"
  by (simp add: correct_those_def correct_loop_map)

lemma find_matching_loop_filter:
  "find_matching_loop E regex flags sentences acc = Inr matching \<Longrightarrow>
   matching = acc @ filter (\<lambda>s. re_search E regex s flags = Some True) sentences"
proof (induction sentences arbitrary: acc)
  case Nil
  then show ?case by simp
next
  case (Cons s sentences)
  from Cons.prems obtain found where
    f: "re_search E regex s flags = Some found" and
    r: "find_matching_loop E regex flags sentences (if found then acc @ [s] else acc)
        = Inr matching"
    by (auto split: option.splits)
  from Cons.IH [OF r] f show ?case by (cases found) auto
qed

lemma find_matching_loop_total:
  "\<forall>s \<in> set sentences. re_search E regex s flags \<noteq> None \<Longrightarrow>
   \<exists>matching. find_matching_loop E regex flags sentences acc = Inr matching"
proof (induction sentences arbitrary: acc)
  case Nil
  then show ?case by simp
next
  case (Cons s sentences)
  then show ?case by (auto split: option.splits)
qed

lemma gutengrep_filter_matching:
  "gutengrep_filter E regex inspec ignore_case cache w = (Inr matching, w') \<Longrightarrow>
   \<exists>sentences. find_matching_sentences E regex sentences (if ignore_case then IGNORECASE else 0)
      = Inr matching"
  by (auto simp: gutengrep_filter_def run_bind_def Let_def split: prod.splits sum.splits if_splits)

lemma find_sentences_in_text_frame:
  "find_sentences_in_text E f w = (r, w') \<Longrightarrow> fs w' = fs w \<and> args w' = args w"
  by (auto simp: find_sentences_in_text_def split: option.splits)

lemma load_sentences_loop_frame:
  "load_sentences_loop E files acc w = (r, w') \<Longrightarrow> fs w' = fs w \<and> args w' = args w"
proof (induction files arbitrary: acc w)
  case Nil
  then show ?case by simp
next
  case (Cons f files)
  obtain r1 w1 where f1: "find_sentences_in_text E f w = (r1, w1)"
    by (cases "find_sentences_in_text E f w")
  then have fr: "fs w1 = fs w \<and> args w1 = args w"
    by (rule find_sentences_in_text_frame)
  show ?case
  proof (cases r1)
    case (Inl e)
    with Cons.prems f1 fr show ?thesis by simp
  next
    case (Inr sentences)
    with Cons.prems f1 have "load_sentences_loop E files (acc @ sentences) w1 = (r, w')"
      by simp
    from Cons.IH [OF this] fr show ?thesis by simp
  qed
qed

lemma gutengrep_sentences_args:
  "gutengrep_sentences E cache files w = (r, w') \<Longrightarrow> args w' = args w"
  by (auto simp: gutengrep_sentences_def run_defs load_cache_def save_cache_def
        load_sentences_from_files_def
      split: if_splits option.splits list.splits sum.splits prod.splits
      dest: load_sentences_loop_frame)

lemma gutengrep_filter_args:
  "gutengrep_filter E regex inspec ignore_case cache w = (r, w') \<Longrightarrow> args w' = args w"
  by (auto simp: gutengrep_filter_def gutengrep_files_def run_defs Let_def
      split: if_splits option.splits sum.splits prod.splits
      dest: gutengrep_sentences_args)

lemmas demo_defs =
  demo_env_def demo_world_def gutengrep_filter_def gutengrep_files_def
  gutengrep_sentences_def run_bind_def run_return_def run_raise_def is_true_def
  load_cache_def save_cache_def load_sentences_from_files_def find_sentences_in_text_def
  find_matching_sentences_def SENTENCES_CACHE_def IGNORECASE_def startswith_def

lemma find_sentences_in_text_undecodable:
  "fs w f = Some bytes \<Longrightarrow> cp1252_decode E bytes = None \<Longrightarrow>
   find_sentences_in_text E f w = (Inr [], w)"
  by (simp add: find_sentences_in_text_def)

lemma load_sentences_loop_skip:
  "fs w f = Some bytes \<Longrightarrow> cp1252_decode E bytes = None \<Longrightarrow>
   load_sentences_loop E (xs @ f # ys) acc w = load_sentences_loop E (xs @ ys) acc w"
proof (induction xs arbitrary: acc w)
  case Nil
  then show ?case by (simp add: find_sentences_in_text_undecodable)
next
  case (Cons x xs)
  obtain r1 w1 where x: "find_sentences_in_text E x w = (r1, w1)"
    by (cases "find_sentences_in_text E x w")
  then have "fs w1 = fs w"
    using find_sentences_in_text_frame by blast
  with Cons.prems have "fs w1 f = Some bytes"
    by simp
  from Cons.IH [OF this Cons.prems(2)] x show ?case
    by (simp split: sum.splits)
qed

lemma find_sentences_in_text_total:
  "fs w g \<noteq> None \<Longrightarrow> punkt E \<noteq> None \<Longrightarrow>
   \<exists>sentences w'. find_sentences_in_text E g w = (Inr sentences, w')"
  by (auto simp: find_sentences_in_text_def split: option.splits)

lemma load_sentences_loop_total:
  "\<forall>g \<in> set files. fs w g \<noteq> None \<Longrightarrow> punkt E \<noteq> None \<Longrightarrow>
   \<exists>sentences w'. load_sentences_loop E files acc w = (Inr sentences, w')"
proof (induction files arbitrary: acc w)
  case Nil
  then show ?case by simp
next
  case (Cons g files)
  then obtain s1 w1 where g: "find_sentences_in_text E g w = (Inr s1, w1)"
    using find_sentences_in_text_total [of w g E] by auto
  then have "fs w1 = fs w"
    using find_sentences_in_text_frame by blast
  with Cons.prems have "\<forall>g \<in> set files. fs w1 g \<noteq> None"
    by simp
  from Cons.IH [OF this Cons.prems(2), of "acc @ s1"] g show ?case
    by simp
qed

lemma gutengrep_sentences_total:
  assumes "\<forall>g \<in> set files. fs w g \<noteq> None" and "punkt E \<noteq> None"
    and "cache \<longrightarrow> fs w SENTENCES_CACHE = None"
  shows "\<exists>sentences w'. gutengrep_sentences E cache (Some files) w = (Inr sentences, w')"
proof -
  obtain sentences w1 where l: "load_sentences_loop E files [] w = (Inr sentences, w1)"
    using load_sentences_loop_total [OF assms(1,2)] by blast
  with assms(3) show ?thesis
    by (cases cache)
      (simp_all add: gutengrep_sentences_def run_defs load_cache_def save_cache_def
        load_sentences_from_files_def)
qed

lemma rfind_from_spec:
  "(c \<notin> set xs \<and> rfind_from c xs i found = found)
   \<or> (\<exists>k < length xs. rfind_from c xs i found = i + int k \<and> xs ! k = c
         \<and> c \<notin> set (drop (Suc k) xs))"
proof (induction xs arbitrary: i found)
  case Nil
  then show ?case by simp
next
  case (Cons x xs)
  show ?case
  proof (cases "c \<in> set xs")
    case True
    with Cons.IH [of "i + 1" "if x = c then i else found"]
    obtain k where "k < length xs"
      and "rfind_from c xs (i + 1) (if x = c then i else found) = i + 1 + int k"
      and "xs ! k = c" and "c \<notin> set (drop (Suc k) xs)"
      by auto
    then have "Suc k < length (x # xs) \<and> rfind_from c (x # xs) i found = i + int (Suc k)
        \<and> (x # xs) ! Suc k = c \<and> c \<notin> set (drop (Suc (Suc k)) (x # xs))"
      by simp
    then show ?thesis by blast
  next
    case False
    with Cons.IH [of "i + 1" "if x = c then i else found"]
    have r: "rfind_from c xs (i + 1) (if x = c then i else found) = (if x = c then i else found)"
      by auto
    show ?thesis
    proof (cases "x = c")
      case True
      with r False have "0 < length (x # xs) \<and> rfind_from c (x # xs) i found = i + int 0
        \<and> (x # xs) ! 0 = c \<and> c \<notin> set (drop (Suc 0) (x # xs))"
        by simp
      then show ?thesis by blast
    next
      case neq: False
      with r False show ?thesis by simp
    qed
  qed
qed

lemma rfind_spec:
  "(c \<notin> set p \<and> rfind p c = - 1)
   \<or> (\<exists>k < length p. rfind p c = int k \<and> p ! k = c \<and> c \<notin> set (drop (Suc k) p))"
  using rfind_from_spec [of c p 0 "- 1"] by (simp add: rfind_def)

lemma splitext_append: "splitext p = (root, ext) \<Longrightarrow> root @ ext = p"
  by (auto simp: splitext_def Let_def split: if_splits)

lemma splitext_ext:
  assumes "splitext p = (root, ext)" and "ext \<noteq> []"
  shows "hd ext = CHR ''.'' \<and> CHR ''.'' \<notin> set (tl ext) \<and> CHR ''/'' \<notin> set ext"
proof -
  from assms have gt: "rfind p CHR ''.'' > rfind p CHR ''/''"
    and ext: "ext = drop (nat (rfind p CHR ''.'')) p"
    by (auto simp: splitext_def Let_def split: if_splits)
  from rfind_spec [of "CHR ''/''" p] have "rfind p CHR ''/'' \<ge> - 1"
    by auto
  with gt rfind_spec [of "CHR ''.''" p] obtain d where d: "d < length p"
    and rd: "rfind p CHR ''.'' = int d" and pd: "p ! d = CHR ''.''"
    and nd: "CHR ''.'' \<notin> set (drop (Suc d) p)"
    by auto
  have e: "ext = CHR ''.'' # drop (Suc d) p"
    using ext rd pd Cons_nth_drop_Suc [OF d] by simp
  have "CHR ''/'' \<notin> set (drop (Suc d) p)"
  proof (cases "CHR ''/'' \<in> set p")
    case False
    then show ?thesis by (meson in_set_dropD)
  next
    case True
    with rfind_spec [of "CHR ''/''" p] obtain k where "rfind p CHR ''/'' = int k"
      and nk: "CHR ''/'' \<notin> set (drop (Suc k) p)"
      by auto
    with gt rd have "Suc k \<le> Suc d" by simp
    then have "set (drop (Suc d) p) \<subseteq> set (drop (Suc k) p)"
      by (rule set_drop_subset_set_drop)
    with nk show ?thesis by blast
  qed
  with e nd show ?thesis by simp
qed

lemma sort_key_length_example:
  "map length [a, b, c, d] = [5, 3, 5, 1] \<Longrightarrow> sort_key length [a, b, c, d] = [d, b, a, c]"
  by (simp add: sort_key_def)

lemma insert_thing_longer:
  "thing \<noteq> [] \<Longrightarrow> insert_thing_into_filename thing filename \<noteq> filename"
proof -
  assume t: "thing \<noteq> []"
  obtain root ext where s: "splitext filename = (root, ext)"
    by (cases "splitext filename")
  then have "length (insert_thing_into_filename thing filename) = length filename + length thing"
    using splitext_append [OF s] by (auto simp: insert_thing_into_filename_def)
  with t show ?thesis by auto
qed

lemma output_loop_concat:
  "output_loop E sentences written
   = written @ concat (map (\<lambda>s. utf8_encode E (format_text E (replace_crlf s)
                                   @ [CHR 0x0A, CHR 0x0A])) sentences)"
  by (induction sentences arbitrary: written) simp_all

lemma gutengrep_sentences_skip:
  "fs w f = Some bytes \<Longrightarrow> cp1252_decode E bytes = None \<Longrightarrow>
   gutengrep_sentences E cache (Some (xs @ f # ys)) w
   = gutengrep_sentences E cache (Some (xs @ ys)) w"
proof -
  assume a: "fs w f = Some bytes" and d: "cp1252_decode E bytes = None"
  have l: "load_sentences_from_files E (xs @ f # ys) w' = load_sentences_from_files E (xs @ ys) w'"
    if "fs w' = fs w" for w'
    using that a d by (simp add: load_sentences_from_files_def load_sentences_loop_skip)
  have c: "snd (load_cache E SENTENCES_CACHE w) = w"
    by (simp add: load_cache_def split: option.splits)
  show ?thesis
  proof (cases cache)
    case False
    then show ?thesis
      by (simp add: gutengrep_sentences_def run_defs l)
  next
    case True
    obtain r where r: "load_cache E SENTENCES_CACHE w = (r, w)"
      using c by (cases "load_cache E SENTENCES_CACHE w") simp
    with True show ?thesis
      by (simp add: gutengrep_sentences_def run_defs l split: sum.splits option.splits list.splits)
  qed
qed

lemma gutengrep_sentences_fresh:
  assumes "load_sentences_from_files E files w = (Inr corpus, w1)"
    and "cache \<longrightarrow> fs w SENTENCES_CACHE = None"
  shows "gutengrep_sentences E cache (Some files) w
         = (Inr corpus,
            if cache then w1\<lparr>fs := (fs w1)(SENTENCES_CACHE \<mapsto> pickle_dumps E corpus)\<rparr> else w1)"
  using assms
  by (cases cache)
    (simp_all add: gutengrep_sentences_def run_defs load_cache_def save_cache_def)

lemma gutengrep_report_outfile:
  assumes "args w = Some args_correct"
  shows "\<exists>w'. gutengrep_report E matching outfile do_sort w = (Inr (), w')
           \<and> fs w' outfile
               = Some (output_loop E (if args_correct then correct_those matching else matching) [])"
proof -
  have "insert_thing_into_filename ''-sort'' outfile \<noteq> outfile"
    by (rule insert_thing_longer) simp
  with assms show ?thesis
    by (simp add: gutengrep_report_def run_defs output_file_def)
qed

subsection \<open>The matcher returns a sub-sequence of matching sentences\<close>

text \<open>
  Claim C1. For every list of sentences, every pattern and every case-sensitivity
  setting, what \<^const>\<open>find_matching_sentences\<close> returns is a sub-sequence of its input
  (same relative order, nothing added), and \<^verbatim>\<open>re.search\<close> (a match anywhere in the
  sentence) returns a match for each of its sentences under the given flags; it is in
  fact the list of all such sentences. The matcher returns whenever the pattern
  compiles, and in a run of \<^const>\<open>gutengrep\<close> the flags are those of the requested case
  sensitivity.
\<close>

theorem find_matching_sentences_sound:
  "(\<forall>matching. find_matching_sentences E regex sentences flags = Inr matching \<longrightarrow>
      subseq matching sentences
      \<and> (\<forall>s \<in> set matching. re_search E regex s flags = Some True)
      \<and> matching = filter (\<lambda>s. re_search E regex s flags = Some True) sentences)
   \<and> ((\<forall>s \<in> set sentences. re_search E regex s flags \<noteq> None) \<longrightarrow>
      (\<exists>matching. find_matching_sentences E regex sentences flags = Inr matching))
   \<and> (\<forall>matching w'. gutengrep_filter E regex inspec ignore_case cache w = (Inr matching, w') \<longrightarrow>
      (\<forall>s \<in> set matching.
         re_search E regex s (if ignore_case then IGNORECASE else 0) = Some True))"
proof (intro conjI allI impI)
  fix matching
  assume "find_matching_sentences E regex sentences flags = Inr matching"
  then have m: "matching = filter (\<lambda>s. re_search E regex s flags = Some True) sentences"
    using find_matching_loop_filter [of E regex flags sentences "[]" matching]
    by (simp add: find_matching_sentences_def)
  show "matching = filter (\<lambda>s. re_search E regex s flags = Some True) sentences"
    by (rule m)
  show "subseq matching sentences"
    by (simp add: m)
  show "\<forall>s \<in> set matching. re_search E regex s flags = Some True"
    by (simp add: m)
next
  assume "\<forall>s \<in> set sentences. re_search E regex s flags \<noteq> None"
  then show "\<exists>matching. find_matching_sentences E regex sentences flags = Inr matching"
    unfolding find_matching_sentences_def by (rule find_matching_loop_total)
next
  fix matching w'
  assume "gutengrep_filter E regex inspec ignore_case cache w = (Inr matching, w')"
  then obtain corpus where
    "find_matching_sentences E regex corpus (if ignore_case then IGNORECASE else 0) = Inr matching"
    using gutengrep_filter_matching by blast
  then have "matching
      = filter (\<lambda>s. re_search E regex s (if ignore_case then IGNORECASE else 0) = Some True) corpus"
    using find_matching_loop_filter [of E regex _ corpus "[]" matching]
    by (simp add: find_matching_sentences_def)
  then show "\<forall>s \<in> set matching.
       re_search E regex s (if ignore_case then IGNORECASE else 0) = Some True"
    by simp
qed

text \<open>The theorem at a three-sentence corpus.\<close>

theorem find_matching_sentences_sound_witness:
  "find_matching_sentences demo_env ''whale'' [''The whale.'', ''A ship.'', ''whales''] 0
     = Inr [''The whale.'', ''whales'']
   \<and> subseq [''The whale.'', ''whales''] [''The whale.'', ''A ship.'', ''whales'']
   \<and> re_search demo_env ''whale'' ''The whale.'' 0 = Some True
   \<and> re_search demo_env ''whale'' ''whales'' 0 = Some True"
proof -
  have run: "find_matching_sentences demo_env ''whale'' [''The whale.'', ''A ship.'', ''whales''] 0
     = Inr [''The whale.'', ''whales'']"
    by (simp add: find_matching_sentences_def demo_env_def startswith_def)
  from find_matching_sentences_sound
    [of demo_env "''whale''" "[''The whale.'', ''A ship.'', ''whales'']" 0]
  have "subseq [''The whale.'', ''whales''] [''The whale.'', ''A ship.'', ''whales'']
        \<and> (\<forall>s \<in> set [''The whale.'', ''whales'']. re_search demo_env ''whale'' s 0 = Some True)"
    using run by blast
  with run show ?thesis by simp
qed

subsection \<open>The corrector\<close>

text \<open>
  Claim C3. On a sentence on which both checks fire, such as one that starts with \<open>'\<close>
  and ends with \<open>"\<close>, the output would have to carry both the quote appended by the
  first check and the quote prepended by the second. It does not: the second check
  builds its value from the loop variable, which still holds the sentence as read, and
  overwrites what the first check stored. For the sentence \<open>'abc"\<close> the first check
  stores \<open>'abc"'\<close> and the function returns \<open>"'abc"\<close>, not \<open>"'abc"'\<close>.
\<close>

theorem correct_those_both_fire:
  "correct_those [[squote] @ ''abc'' @ [dquote]] = [[dquote] @ [squote] @ ''abc'' @ [dquote]]
   \<and> correct_step1 0 ([squote] @ ''abc'' @ [dquote]) [[squote] @ ''abc'' @ [dquote]]
       = [[squote] @ ''abc'' @ [dquote] @ [squote]]
   \<and> correct_those [[squote] @ ''abc'' @ [dquote]]
       \<noteq> [[dquote] @ [squote] @ ''abc'' @ [dquote] @ [squote]]"
  by (simp add: correct_those_map corrected_def correct_step1_def startswith_def endswith_def
      dquote_def squote_def)

text \<open>
  Claim C4, as stated: the corrector maps \<open>He said "hello\<close> to \<open>He said "hello"\<close>. It
  does not.
\<close>

theorem correct_those_he_said_counterexample:
  "correct_those [''He said '' @ [dquote] @ ''hello'']
     \<noteq> [''He said '' @ [dquote] @ ''hello'' @ [dquote]]"
  by (simp add: correct_those_map corrected_def startswith_def endswith_def
      dquote_def squote_def)

text \<open>
  Claim C4, amended. The corrector maps the input sentence \<open>He said "hello\<close> to itself:
  the output is \<open>He said "hello\<close>, and no closing double quote is appended.
\<close>

theorem correct_those_he_said:
  "correct_those [''He said '' @ [dquote] @ ''hello''] = [''He said '' @ [dquote] @ ''hello'']"
  by (simp add: correct_those_map corrected_def startswith_def endswith_def
      dquote_def squote_def)

subsection \<open>The cache round trip\<close>

text \<open>
  Claim C5. For every list of strings \<open>corpus\<close>, the empty list included, saving it to
  the cache file and then loading from that file returns \<open>corpus\<close>, given that
  \<^verbatim>\<open>pickle.load\<close> reads back what \<^verbatim>\<open>pickle.dump\<close> wrote for it.
\<close>

theorem cache_round_trip:
  assumes "pickle_loads E (pickle_dumps E corpus) = Some corpus"
  shows "run_bind (save_cache E filename corpus) (\<lambda>_. load_cache E filename) w
         = (Inr (Some corpus), w\<lparr>fs := (fs w)(filename \<mapsto> pickle_dumps E corpus)\<rparr>)"
  using assms by (simp add: run_bind_def save_cache_def load_cache_def)

text \<open>The theorem at the empty corpus and at a corpus of two sentences.\<close>

theorem cache_round_trip_witness:
  "pickle_loads demo_env (pickle_dumps demo_env []) = Some []
   \<and> fst (run_bind (save_cache demo_env SENTENCES_CACHE [])
            (\<lambda>_. load_cache demo_env SENTENCES_CACHE) demo_world) = Inr (Some [])
   \<and> pickle_loads demo_env (pickle_dumps demo_env [''The whale.'', ''A ship.''])
       = Some [''The whale.'', ''A ship.'']
   \<and> fst (run_bind (save_cache demo_env SENTENCES_CACHE [''The whale.'', ''A ship.''])
            (\<lambda>_. load_cache demo_env SENTENCES_CACHE) demo_world)
       = Inr (Some [''The whale.'', ''A ship.''])"
proof -
  have e: "pickle_loads demo_env (pickle_dumps demo_env []) = Some []"
    by (simp add: demo_env_def)
  have n: "pickle_loads demo_env (pickle_dumps demo_env [''The whale.'', ''A ship.''])
       = Some [''The whale.'', ''A ship.'']"
    by (simp add: demo_env_def)
  show ?thesis
    using e n cache_round_trip [OF e, of SENTENCES_CACHE demo_world]
      cache_round_trip [OF n, of SENTENCES_CACHE demo_world]
    by simp
qed

subsection \<open>An inspec that matches no file\<close>

text \<open>
  Claim C6. For every run whose \<^verbatim>\<open>inspec\<close> is given (a non-empty string, which is
  what the code takes for a given one) and globs to zero files, the run ends at once in
  \<^verbatim>\<open>sys.exit\<close> with a message that names the pattern (exit status 1), for every setting
  of the other arguments, the cache flag included; the state is the one the run started
  in, so no output file and no cache file has been written. A file that does not decode
  is another matter: \<^const>\<open>find_sentences_in_text\<close> returns the empty list for it and
  raises nothing.
\<close>

theorem no_input_files_fatal:
  assumes "inspec = Some p" and "p \<noteq> []" and "glob E p = []"
  shows "gutengrep E regex inspec outfile ignore_case do_sort cache correct w
           = (Inl (SystemExit (''No input files found matching '' @ p)), w)
         \<and> (\<forall>f bytes. fs w f = Some bytes \<and> cp1252_decode E bytes = None \<longrightarrow>
               find_sentences_in_text E f w = (Inr [], w))"
  using assms
  by (simp add: gutengrep_def gutengrep_filter_def gutengrep_files_def run_defs is_true_def
      find_sentences_in_text_def)

text \<open>The theorem at a pattern that matches nothing and at a file that does not decode.\<close>

theorem no_input_files_fatal_witness:
  "glob demo_env ''*.log'' = []
   \<and> gutengrep demo_env ''whale'' (Some ''*.log'') ''output.log'' False False False False demo_world
       = (Inl (SystemExit ''No input files found matching *.log''), demo_world)
   \<and> fs demo_world ''a.txt'' = Some [CHR ''x'', CHR 0x81]
   \<and> cp1252_decode demo_env [CHR ''x'', CHR 0x81] = None
   \<and> find_sentences_in_text demo_env ''a.txt'' demo_world = (Inr [], demo_world)"
proof -
  have g: "glob demo_env ''*.log'' = []"
    by (simp add: demo_env_def)
  have a: "fs demo_world ''a.txt'' = Some [CHR ''x'', CHR 0x81]"
    by (simp add: demo_world_def)
  have d: "cp1252_decode demo_env [CHR ''x'', CHR 0x81] = None"
    by (simp add: demo_env_def)
  from no_input_files_fatal [OF refl _ g, of "''whale''" "''output.log''" False False False False
      demo_world]
  have "gutengrep demo_env ''whale'' (Some ''*.log'') ''output.log'' False False False False
          demo_world
        = (Inl (SystemExit ''No input files found matching *.log''), demo_world)
      \<and> find_sentences_in_text demo_env ''a.txt'' demo_world = (Inr [], demo_world)"
    using a d by auto
  with g a d show ?thesis by simp
qed

subsection \<open>The cache flag without an inspec\<close>

text \<open>
  Claim C9. For every run with the cache flag set, no \<^verbatim>\<open>inspec\<close> (\<^verbatim>\<open>None\<close> or the empty
  string), and either no cache file or a cache record that unpickles to the empty
  list, the run does not end in a reported configuration error (\<^verbatim>\<open>sys.exit\<close>): it
  reaches \<^verbatim>\<open>load_sentences_from_files(files)\<close> with \<^verbatim>\<open>files\<close> unbound and ends in a
  \<^verbatim>\<open>NameError\<close>, in the state it started in.
\<close>

theorem cache_without_inspec_unbound_files:
  assumes "\<not> is_true inspec"
    and "fs w SENTENCES_CACHE = None
         \<or> (\<exists>bytes. fs w SENTENCES_CACHE = Some bytes \<and> pickle_loads E bytes = Some [])"
  shows "gutengrep E regex inspec outfile ignore_case do_sort True correct w
           = (Inl (NameError ''files''), w)"
  using assms
  by (auto simp: gutengrep_def gutengrep_filter_def gutengrep_files_def gutengrep_sentences_def
        run_defs is_true_def load_cache_def
      split: option.splits)

text \<open>The theorem without a cache file, and with a cache file that holds the empty list.\<close>

theorem cache_without_inspec_unbound_files_witness:
  "\<not> is_true None
   \<and> fs demo_world SENTENCES_CACHE = None
   \<and> fst (gutengrep demo_env ''whale'' None ''output.log'' False False True False demo_world)
       = Inl (NameError ''files'')
   \<and> \<not> is_true (Some [])
   \<and> fs (demo_world\<lparr>fs := [SENTENCES_CACHE \<mapsto> []]\<rparr>) SENTENCES_CACHE = Some []
   \<and> pickle_loads demo_env [] = Some []
   \<and> fst (gutengrep demo_env ''whale'' (Some []) ''output.log'' False False True False
            (demo_world\<lparr>fs := [SENTENCES_CACHE \<mapsto> []]\<rparr>))
       = Inl (NameError ''files'')"
proof -
  have n: "\<not> is_true None" and e: "\<not> is_true (Some [])"
    by (simp_all add: is_true_def)
  have a: "fs demo_world SENTENCES_CACHE = None"
    by (simp add: demo_world_def SENTENCES_CACHE_def)
  have b: "fs (demo_world\<lparr>fs := [SENTENCES_CACHE \<mapsto> []]\<rparr>) SENTENCES_CACHE = Some []"
    by simp
  have l: "pickle_loads demo_env [] = Some []"
    by (simp add: demo_env_def)
  show ?thesis
    using n e a b l
      cache_without_inspec_unbound_files [OF n disjI1, OF a, of demo_env "''whale''"
        "''output.log''" False False False]
      cache_without_inspec_unbound_files [OF e disjI2, of "demo_world\<lparr>fs := [SENTENCES_CACHE \<mapsto> []]\<rparr>"
        demo_env "''whale''" "''output.log''" False False False]
    by simp
qed

subsection \<open>The parameter \<^verbatim>\<open>correct\<close>\<close>

text \<open>
  Claim C10. The parameter \<^verbatim>\<open>correct\<close> of \<^const>\<open>gutengrep\<close> is never consulted: a run
  does the same for both of its values. The decision to correct reads the module
  global \<^verbatim>\<open>args.correct\<close>. So a call in a process where \<^verbatim>\<open>args\<close> is unbound, once it has
  got through the filter, ends in a \<^verbatim>\<open>NameError\<close> in the state the filter left, whatever
  was passed for \<^verbatim>\<open>correct\<close>, and no such call returns normally; and where \<^verbatim>\<open>args\<close> is bound, the sentences written are
  corrected exactly when \<^verbatim>\<open>args.correct\<close> is true.
\<close>

theorem correct_parameter_never_consulted:
  "gutengrep E regex inspec outfile ignore_case do_sort cache correct w
     = gutengrep E regex inspec outfile ignore_case do_sort cache (\<not> correct) w
   \<and> (\<forall>matching w'.
        args w = None
        \<and> gutengrep_filter E regex inspec ignore_case cache w = (Inr matching, w') \<longrightarrow>
        gutengrep E regex inspec outfile ignore_case do_sort cache correct w
          = (Inl (NameError ''args''), w'))
   \<and> (args w = None \<longrightarrow>
        (\<exists>e w'. gutengrep E regex inspec outfile ignore_case do_sort cache correct w
                  = (Inl e, w')))
   \<and> (\<forall>args_correct matching w'.
        args w = Some args_correct
        \<and> gutengrep_filter E regex inspec ignore_case cache w = (Inr matching, w') \<longrightarrow>
        gutengrep E regex inspec outfile ignore_case False cache correct w
          = (Inr (), w'\<lparr>fs := (fs w')(outfile \<mapsto>
               output_loop E (if args_correct then correct_those matching else matching) [])\<rparr>))"
proof (intro conjI allI impI)
  show "gutengrep E regex inspec outfile ignore_case do_sort cache correct w
     = gutengrep E regex inspec outfile ignore_case do_sort cache (\<not> correct) w"
    by (simp add: gutengrep_def)
next
  fix matching w'
  assume a: "args w = None
     \<and> gutengrep_filter E regex inspec ignore_case cache w = (Inr matching, w')"
  then have "args w' = None"
    using gutengrep_filter_args [of E regex inspec ignore_case cache w "Inr matching" w'] by simp
  with a show "gutengrep E regex inspec outfile ignore_case do_sort cache correct w
          = (Inl (NameError ''args''), w')"
    by (simp add: gutengrep_def gutengrep_report_def run_defs)
next
  assume n: "args w = None"
  obtain r w1 where f: "gutengrep_filter E regex inspec ignore_case cache w = (r, w1)"
    by (cases "gutengrep_filter E regex inspec ignore_case cache w")
  then have "args w1 = None"
    using gutengrep_filter_args [OF f] n by simp
  with f show "\<exists>e w'. gutengrep E regex inspec outfile ignore_case do_sort cache correct w
                 = (Inl e, w')"
    by (cases r) (simp_all add: gutengrep_def gutengrep_report_def run_defs)
next
  fix args_correct matching w'
  assume a: "args w = Some args_correct
     \<and> gutengrep_filter E regex inspec ignore_case cache w = (Inr matching, w')"
  then have "args w' = Some args_correct"
    using gutengrep_filter_args [of E regex inspec ignore_case cache w "Inr matching" w'] by simp
  with a show "gutengrep E regex inspec outfile ignore_case False cache correct w
          = (Inr (), w'\<lparr>fs := (fs w')(outfile \<mapsto>
               output_loop E (if args_correct then correct_those matching else matching) [])\<rparr>)"
    by (simp add: gutengrep_def gutengrep_report_def run_defs output_file_def)
qed

text \<open>
  The theorem at a direct call with \<^verbatim>\<open>args\<close> unbound, for both values of \<^verbatim>\<open>correct\<close>, and
  at a call with \<^verbatim>\<open>args.correct\<close> false and \<^verbatim>\<open>correct\<close> true.
\<close>

theorem correct_parameter_never_consulted_witness:
  "args (demo_world\<lparr>args := None\<rparr>) = None
   \<and> fst (gutengrep_filter demo_env ''whale'' (Some ''*.txt'') False False
            (demo_world\<lparr>args := None\<rparr>)) = Inr [''The whale.'']
   \<and> fst (gutengrep demo_env ''whale'' (Some ''*.txt'') ''output.log'' False False False True
            (demo_world\<lparr>args := None\<rparr>)) = Inl (NameError ''args'')
   \<and> fst (gutengrep demo_env ''whale'' (Some ''*.txt'') ''output.log'' False False False False
            (demo_world\<lparr>args := None\<rparr>)) = Inl (NameError ''args'')
   \<and> args demo_world = Some False
   \<and> fst (gutengrep_filter demo_env ''whale'' (Some ''*.txt'') False False demo_world)
       = Inr [''The whale.'']
   \<and> fs (snd (gutengrep demo_env ''whale'' (Some ''*.txt'') ''output.log'' False False False True
                demo_world)) ''output.log''
       = Some (''The whale.'' @ [CHR 0x0A, CHR 0x0A])"
proof -
  let ?u = "demo_world\<lparr>args := None\<rparr>"
  have au: "args ?u = None"
    by simp
  have fu: "fst (gutengrep_filter demo_env ''whale'' (Some ''*.txt'') False False ?u)
            = Inr [''The whale.'']"
    by (simp add: demo_defs)
  then obtain u' where
    u': "gutengrep_filter demo_env ''whale'' (Some ''*.txt'') False False ?u
         = (Inr [''The whale.''], u')"
    by (cases "gutengrep_filter demo_env ''whale'' (Some ''*.txt'') False False ?u") simp
  have ad: "args demo_world = Some False"
    by (simp add: demo_world_def)
  have fd: "fst (gutengrep_filter demo_env ''whale'' (Some ''*.txt'') False False demo_world)
            = Inr [''The whale.'']"
    by (simp add: demo_defs)
  then obtain d' where
    d': "gutengrep_filter demo_env ''whale'' (Some ''*.txt'') False False demo_world
         = (Inr [''The whale.''], d')"
    by (cases "gutengrep_filter demo_env ''whale'' (Some ''*.txt'') False False demo_world") simp
  have t: "gutengrep demo_env ''whale'' (Some ''*.txt'') ''output.log'' False False False True ?u
           = (Inl (NameError ''args''), u')"
    using correct_parameter_never_consulted
      [of demo_env "''whale''" "Some ''*.txt''" "''output.log''" False False False True ?u]
      au u' by blast
  have f: "gutengrep demo_env ''whale'' (Some ''*.txt'') ''output.log'' False False False False ?u
           = (Inl (NameError ''args''), u')"
    using correct_parameter_never_consulted
      [of demo_env "''whale''" "Some ''*.txt''" "''output.log''" False False False False ?u]
      au u' by blast
  have o: "gutengrep demo_env ''whale'' (Some ''*.txt'') ''output.log'' False False False True
             demo_world
           = (Inr (), d'\<lparr>fs := (fs d')(''output.log'' \<mapsto>
                output_loop demo_env (if False then correct_those [''The whale.''] else [''The whale.''])
                  [])\<rparr>)"
    using correct_parameter_never_consulted
      [of demo_env "''whale''" "Some ''*.txt''" "''output.log''" False False False True demo_world]
      ad d' by blast
  have r: "output_loop demo_env [''The whale.''] [] = ''The whale.'' @ [CHR 0x0A, CHR 0x0A]"
    by (simp add: demo_env_def format_text_def)
  show ?thesis
    using au fu t f ad fd o r by simp
qed

subsection \<open>A run with a cache record\<close>

text \<open>
  Claim C2, as stated: in every run with the cache flag set and a cache record on disk,
  the corpus is the cached record and no file is globbed, loaded or segmented, whatever
  \<^verbatim>\<open>inspec\<close> is, also when the record is the empty list and also when \<^verbatim>\<open>inspec\<close> globs to
  zero files. Two runs show otherwise. With a record of one sentence and an \<^verbatim>\<open>inspec\<close>
  that matches no file, the run ends in \<^verbatim>\<open>sys.exit\<close>: the glob and its test come before
  the cache is read. With a record that is the empty list, \<^verbatim>\<open>not sentences\<close> holds for
  what \<^const>\<open>load_cache\<close> returned, so the files are loaded and segmented (the
  tokenizer is loaded) and the corpus is theirs.
\<close>

theorem cache_hit_counterexample:
  "fs (cached_world [''Cached whale.'']) SENTENCES_CACHE \<noteq> None
   \<and> fst (gutengrep demo_env ''whale'' (Some ''*.log'') ''output.log'' False False True False
            (cached_world [''Cached whale.'']))
       = Inl (SystemExit ''No input files found matching *.log'')
   \<and> load_cache demo_env SENTENCES_CACHE (cached_world []) = (Inr (Some []), cached_world [])
   \<and> fst (gutengrep_sentences demo_env True (Some (glob demo_env ''*.txt'')) (cached_world []))
       = Inr [''The whale.'', '' A ship.'']
   \<and> fst (gutengrep_filter demo_env ''whale'' (Some ''*.txt'') False True (cached_world []))
       = Inr [''The whale.'']
   \<and> TOKENIZER (snd (gutengrep_filter demo_env ''whale'' (Some ''*.txt'') False True
                       (cached_world []))) \<noteq> None"
  by (simp add: gutengrep_def cached_world_def demo_defs)

text \<open>
  Claim C2, amended. In every run with the cache flag set and a cache record on disk
  that is a non-empty list of sentences, the corpus is the cached record and the load
  and segment pass is skipped, whatever files \<^verbatim>\<open>inspec\<close> selected (a given \<^verbatim>\<open>inspec\<close> is
  still globbed, and the result ignored) and also when \<^verbatim>\<open>files\<close> is unbound: the state
  after obtaining the corpus is the state before (no tokenizer loaded, no cache
  written). Provided \<^verbatim>\<open>inspec\<close> is absent or globs to at
  least one file, the run then filters exactly the cached record.
\<close>

theorem cache_hit_skips_loading:
  assumes "fs w SENTENCES_CACHE = Some bytes"
    and "pickle_loads E bytes = Some (s # ss)"
  shows "(\<forall>files. gutengrep_sentences E True files w = (Inr (s # ss), w))
         \<and> ((\<forall>p. inspec = Some p \<and> p \<noteq> [] \<longrightarrow> glob E p \<noteq> []) \<longrightarrow>
              gutengrep_filter E regex inspec ignore_case True w
                = (find_matching_sentences E regex (s # ss)
                     (if ignore_case then IGNORECASE else 0), w))"
proof -
  have c: "gutengrep_sentences E True files w = (Inr (s # ss), w)" for files
    using assms by (simp add: gutengrep_sentences_def run_defs load_cache_def)
  have "gutengrep_filter E regex inspec ignore_case True w
          = (find_matching_sentences E regex (s # ss) (if ignore_case then IGNORECASE else 0), w)"
    if g: "\<forall>p. inspec = Some p \<and> p \<noteq> [] \<longrightarrow> glob E p \<noteq> []"
  proof (cases inspec)
    case None
    then show ?thesis
      by (simp add: gutengrep_filter_def gutengrep_files_def run_defs c)
  next
    case (Some p)
    with g show ?thesis
      by (simp add: gutengrep_filter_def gutengrep_files_def run_defs c Let_def)
  qed
  with c show ?thesis by blast
qed

text \<open>The theorem at a cache record of one sentence and a pattern that matches one file.\<close>

theorem cache_hit_skips_loading_witness:
  "fs (cached_world [''Cached whale.'']) SENTENCES_CACHE = Some (''Cached whale.'' @ [CHR 0x00])
   \<and> pickle_loads demo_env (''Cached whale.'' @ [CHR 0x00]) = Some [''Cached whale.'']
   \<and> glob demo_env ''b.*'' = [''b.txt'']
   \<and> gutengrep_sentences demo_env True (Some [''b.txt'']) (cached_world [''Cached whale.''])
       = (Inr [''Cached whale.''], cached_world [''Cached whale.''])
   \<and> gutengrep_sentences demo_env True None (cached_world [''Cached whale.''])
       = (Inr [''Cached whale.''], cached_world [''Cached whale.''])
   \<and> gutengrep_filter demo_env ''whale'' (Some ''b.*'') False True (cached_world [''Cached whale.''])
       = (Inr [''Cached whale.''], cached_world [''Cached whale.''])"
proof -
  have f: "fs (cached_world [''Cached whale.'']) SENTENCES_CACHE
           = Some (''Cached whale.'' @ [CHR 0x00])"
    by (simp add: cached_world_def demo_env_def)
  have l: "pickle_loads demo_env (''Cached whale.'' @ [CHR 0x00]) = Some [''Cached whale.'']"
    by (simp add: demo_env_def)
  have g: "glob demo_env ''b.*'' = [''b.txt'']"
    by (simp add: demo_env_def)
  have m: "find_matching_sentences demo_env ''whale'' [''Cached whale.''] 0
           = Inr [''Cached whale.'']"
    by (simp add: find_matching_sentences_def demo_env_def startswith_def)
  from cache_hit_skips_loading [OF f l, of "Some ''b.*''" "''whale''" False] g m
  show ?thesis
    using f l by simp
qed

subsection \<open>A file that does not decode\<close>

text \<open>
  Claim C7. For every input file whose bytes do not decode under \<^verbatim>\<open>cp1252\<close>, the loader
  contributes no sentence for that file, and the run goes on with the remaining files:
  loading the files with it is loading them without it, and so is obtaining the
  corpus. The failure is never fatal: a run whose remaining files all exist ends
  normally, whichever of them decode, and what it writes to the output file is the
  rendering of the sentences of the remaining files that match the pattern (corrected
  when \<^verbatim>\<open>args.correct\<close> is true), one block per sentence, as long as nothing else fails
  (the tokenizer is installed, no cache file is there to read when the cache flag is
  set, the pattern compiles and \<^verbatim>\<open>args\<close> is bound).
\<close>

theorem decode_failure_not_fatal:
  assumes "fs w f = Some bytes" and "cp1252_decode E bytes = None"
  shows "find_sentences_in_text E f w = (Inr [], w)
    \<and> load_sentences_from_files E (xs @ f # ys) w = load_sentences_from_files E (xs @ ys) w
    \<and> gutengrep_sentences E cache (Some (xs @ f # ys)) w
        = gutengrep_sentences E cache (Some (xs @ ys)) w
    \<and> (p \<noteq> [] \<and> glob E p = xs @ f # ys
        \<and> (\<forall>g \<in> set (xs @ ys). fs w g \<noteq> None)
        \<and> punkt E \<noteq> None
        \<and> (cache \<longrightarrow> fs w SENTENCES_CACHE = None)
        \<and> (\<forall>s. re_search E regex s (if ignore_case then IGNORECASE else 0) \<noteq> None)
        \<and> args w = Some args_correct \<longrightarrow>
        (\<exists>corpus w1 w'.
           load_sentences_from_files E (xs @ ys) w = (Inr corpus, w1)
           \<and> gutengrep E regex (Some p) outfile ignore_case do_sort cache correct w = (Inr (), w')
           \<and> fs w' outfile
               = Some (concat (map (\<lambda>s. utf8_encode E (format_text E (replace_crlf s)
                                            @ [CHR 0x0A, CHR 0x0A]))
                   (if args_correct
                    then correct_those
                      (filter (\<lambda>s. re_search E regex s (if ignore_case then IGNORECASE else 0)
                                     = Some True) corpus)
                    else filter (\<lambda>s. re_search E regex s (if ignore_case then IGNORECASE else 0)
                                     = Some True) corpus)))))"
proof (intro conjI impI)
  show "find_sentences_in_text E f w = (Inr [], w)"
    using assms by (rule find_sentences_in_text_undecodable)
  show skip: "load_sentences_from_files E (xs @ f # ys) w
              = load_sentences_from_files E (xs @ ys) w"
    using assms by (simp add: load_sentences_from_files_def load_sentences_loop_skip)
  show "gutengrep_sentences E cache (Some (xs @ f # ys)) w
        = gutengrep_sentences E cache (Some (xs @ ys)) w"
    using assms by (rule gutengrep_sentences_skip)
next
  let ?flags = "if ignore_case then IGNORECASE else 0"
  let ?found = "\<lambda>s. re_search E regex s ?flags = Some True"
  assume h: "p \<noteq> [] \<and> glob E p = xs @ f # ys
        \<and> (\<forall>g \<in> set (xs @ ys). fs w g \<noteq> None)
        \<and> punkt E \<noteq> None
        \<and> (cache \<longrightarrow> fs w SENTENCES_CACHE = None)
        \<and> (\<forall>s. re_search E regex s ?flags \<noteq> None)
        \<and> args w = Some args_correct"
  have files: "gutengrep_files E (Some p) cache w = (Inr (Some (xs @ f # ys)), w)"
    using h by (simp add: gutengrep_files_def run_defs is_true_def)
  obtain corpus w1 where
    load: "load_sentences_from_files E (xs @ ys) w = (Inr corpus, w1)"
    using load_sentences_loop_total [of "xs @ ys" w E "[]"] h
    by (auto simp: load_sentences_from_files_def)
  define w2 where
    "w2 = (if cache then w1\<lparr>fs := (fs w1)(SENTENCES_CACHE \<mapsto> pickle_dumps E corpus)\<rparr> else w1)"
  have "gutengrep_sentences E cache (Some (xs @ ys)) w = (Inr corpus, w2)"
    unfolding w2_def using load h by (intro gutengrep_sentences_fresh) simp_all
  then have sentences: "gutengrep_sentences E cache (Some (xs @ f # ys)) w = (Inr corpus, w2)"
    using gutengrep_sentences_skip [OF assms] by simp
  obtain matching where
    matching: "find_matching_sentences E regex corpus ?flags = Inr matching"
    using find_matching_loop_total [of corpus E regex ?flags "[]"] h
    by (auto simp: find_matching_sentences_def)
  then have m: "matching = filter ?found corpus"
    using find_matching_loop_filter [of E regex ?flags corpus "[]" matching]
    by (simp add: find_matching_sentences_def)
  have filter: "gutengrep_filter E regex (Some p) ignore_case cache w = (Inr matching, w2)"
    using files sentences matching by (simp add: gutengrep_filter_def run_bind_def)
  then have "args w2 = args w"
    by (rule gutengrep_filter_args)
  with h have "args w2 = Some args_correct"
    by simp
  then obtain w' where
    report: "gutengrep_report E matching outfile do_sort w2 = (Inr (), w')" and
    out: "fs w' outfile
          = Some (output_loop E (if args_correct then correct_those matching else matching) [])"
    using gutengrep_report_outfile by blast
  have run: "gutengrep E regex (Some p) outfile ignore_case do_sort cache correct w = (Inr (), w')"
    using filter report by (simp add: gutengrep_def run_bind_def)
  have "fs w' outfile
        = Some (concat (map (\<lambda>s. utf8_encode E (format_text E (replace_crlf s)
                                     @ [CHR 0x0A, CHR 0x0A]))
            (if args_correct then correct_those (filter ?found corpus)
             else filter ?found corpus)))"
    using out m by (simp add: output_loop_concat)
  with load run
  show "\<exists>corpus w1 w'.
           load_sentences_from_files E (xs @ ys) w = (Inr corpus, w1)
           \<and> gutengrep E regex (Some p) outfile ignore_case do_sort cache correct w = (Inr (), w')
           \<and> fs w' outfile
               = Some (concat (map (\<lambda>s. utf8_encode E (format_text E (replace_crlf s)
                                            @ [CHR 0x0A, CHR 0x0A]))
                   (if args_correct then correct_those (filter ?found corpus)
                    else filter ?found corpus)))"
    by blast
qed

text \<open>
  The theorem at two files, the first of which does not decode: the output file holds
  the one matching sentence of the second.
\<close>

theorem decode_failure_not_fatal_witness:
  "fs demo_world ''a.txt'' = Some [CHR ''x'', CHR 0x81]
   \<and> cp1252_decode demo_env [CHR ''x'', CHR 0x81] = None
   \<and> find_sentences_in_text demo_env ''a.txt'' demo_world = (Inr [], demo_world)
   \<and> load_sentences_from_files demo_env [''a.txt'', ''b.txt''] demo_world
       = load_sentences_from_files demo_env [''b.txt''] demo_world
   \<and> gutengrep_sentences demo_env False (Some [''a.txt'', ''b.txt'']) demo_world
       = gutengrep_sentences demo_env False (Some [''b.txt'']) demo_world
   \<and> fst (load_sentences_from_files demo_env [''b.txt''] demo_world)
       = Inr [''The whale.'', '' A ship.'']
   \<and> glob demo_env ''*.txt'' = [''a.txt'', ''b.txt'']
   \<and> args demo_world = Some False
   \<and> fst (gutengrep demo_env ''whale'' (Some ''*.txt'') ''output.log'' False False False False
            demo_world) = Inr ()
   \<and> fs (snd (gutengrep demo_env ''whale'' (Some ''*.txt'') ''output.log'' False False False False
                demo_world)) ''output.log''
       = Some (''The whale.'' @ [CHR 0x0A, CHR 0x0A])"
proof -
  have a: "fs demo_world ''a.txt'' = Some [CHR ''x'', CHR 0x81]"
    by (simp add: demo_world_def)
  have d: "cp1252_decode demo_env [CHR ''x'', CHR 0x81] = None"
    by (simp add: demo_env_def)
  have g: "glob demo_env ''*.txt'' = [] @ ''a.txt'' # [''b.txt'']"
    by (simp add: demo_env_def)
  have b: "\<forall>g \<in> set ([] @ [''b.txt'']). fs demo_world g \<noteq> None"
    by (simp add: demo_world_def)
  have k: "punkt demo_env \<noteq> None"
    by (simp add: demo_env_def)
  have r: "\<forall>s. re_search demo_env ''whale'' s (if False then IGNORECASE else 0) \<noteq> None"
    by (simp add: demo_env_def)
  have n: "args demo_world = Some False"
    by (simp add: demo_world_def)
  have l: "fst (load_sentences_from_files demo_env [''b.txt''] demo_world)
           = Inr [''The whale.'', '' A ship.'']"
    by (simp add: demo_defs)
  have m: "filter (\<lambda>s. re_search demo_env ''whale'' s (if False then IGNORECASE else 0) = Some True)
             [''The whale.'', '' A ship.''] = [''The whale.'']"
    by (simp add: demo_env_def startswith_def)
  have o: "concat (map (\<lambda>s. utf8_encode demo_env (format_text demo_env (replace_crlf s)
                                @ [CHR 0x0A, CHR 0x0A])) [''The whale.''])
           = ''The whale.'' @ [CHR 0x0A, CHR 0x0A]"
    by (simp add: demo_env_def format_text_def)
  note t = decode_failure_not_fatal [OF a d, of "[]" "[''b.txt'']" False "''*.txt''" "''whale''"
      False False "''output.log''" False False]
  have t1: "find_sentences_in_text demo_env ''a.txt'' demo_world = (Inr [], demo_world)"
    by (rule t [THEN conjunct1])
  have t2: "load_sentences_from_files demo_env ([] @ ''a.txt'' # [''b.txt'']) demo_world
       = load_sentences_from_files demo_env ([] @ [''b.txt'']) demo_world"
    by (rule t [THEN conjunct2, THEN conjunct1])
  have t3: "gutengrep_sentences demo_env False (Some ([] @ ''a.txt'' # [''b.txt''])) demo_world
       = gutengrep_sentences demo_env False (Some ([] @ [''b.txt''])) demo_world"
    by (rule t [THEN conjunct2, THEN conjunct2, THEN conjunct1])
  have "\<exists>corpus w1 w'.
      load_sentences_from_files demo_env ([] @ [''b.txt'']) demo_world = (Inr corpus, w1)
      \<and> gutengrep demo_env ''whale'' (Some ''*.txt'') ''output.log'' False False False False
           demo_world = (Inr (), w')
      \<and> fs w' ''output.log''
          = Some (concat (map (\<lambda>s. utf8_encode demo_env (format_text demo_env (replace_crlf s)
                                       @ [CHR 0x0A, CHR 0x0A]))
              (if False
               then correct_those
                 (filter (\<lambda>s. re_search demo_env ''whale'' s (if False then IGNORECASE else 0)
                                = Some True) corpus)
               else filter (\<lambda>s. re_search demo_env ''whale'' s (if False then IGNORECASE else 0)
                                = Some True) corpus)))"
    using t [THEN conjunct2, THEN conjunct2, THEN conjunct2] g b k r n by blast
  then obtain corpus w1 w' where
    c: "load_sentences_from_files demo_env [''b.txt''] demo_world = (Inr corpus, w1)" and
    run: "gutengrep demo_env ''whale'' (Some ''*.txt'') ''output.log'' False False False False
            demo_world = (Inr (), w')" and
    out: "fs w' ''output.log''
          = Some (concat (map (\<lambda>s. utf8_encode demo_env (format_text demo_env (replace_crlf s)
                                       @ [CHR 0x0A, CHR 0x0A]))
              (filter (\<lambda>s. re_search demo_env ''whale'' s (if False then IGNORECASE else 0)
                             = Some True) corpus)))"
    by auto
  from c l have "corpus = [''The whale.'', '' A ship.'']"
    by simp
  with out m o have out': "fs w' ''output.log'' = Some (''The whale.'' @ [CHR 0x0A, CHR 0x0A])"
    by simp
  from t2 have t2': "load_sentences_from_files demo_env [''a.txt'', ''b.txt''] demo_world
       = load_sentences_from_files demo_env [''b.txt''] demo_world"
    by simp
  from t3 have t3': "gutengrep_sentences demo_env False (Some [''a.txt'', ''b.txt'']) demo_world
       = gutengrep_sentences demo_env False (Some [''b.txt'']) demo_world"
    by simp
  from g have g': "glob demo_env ''*.txt'' = [''a.txt'', ''b.txt'']"
    by simp
  show ?thesis
    unfolding run using a d t1 t2' t3' l g' n out' by simp
qed

subsection \<open>The sorted second pass\<close>

text \<open>
  Claim C8. When the sorted second pass is requested, a run that gets through the
  filter with \<^verbatim>\<open>args\<close> bound writes the match set (corrected when \<^verbatim>\<open>args.correct\<close> is
  true) to the output path and the same sentences, sorted by ascending length, to a
  second path. The sort is stable: the sentences of any one length keep their relative
  order, and sentences of lengths 5, 3, 5, 1 come out as the fourth, the second, the
  first and the third, with lengths 1, 3, 5, 5. The second path is derived from the
  output path by inserting \<open>-sort\<close> before the file extension: it is the root, the
  marker and the extension that \<^verbatim>\<open>os.path.splitext\<close> gives for the output path, where the
  extension is empty or starts at the last full stop after the last \<open>/\<close>; so
  \<open>output.log\<close> gives \<open>output-sort.log\<close>, and the second path is never the first.
\<close>

theorem sorted_second_pass:
  assumes "gutengrep_filter E regex inspec ignore_case cache w = (Inr matching, w1)"
    and "args w = Some args_correct"
    and "sentences = (if args_correct then correct_those matching else matching)"
  shows "gutengrep E regex inspec outfile ignore_case True cache correct w
           = (Inr (),
              w1\<lparr>fs := (fs w1)
                 (outfile \<mapsto> output_loop E sentences [],
                  insert_thing_into_filename ''-sort'' outfile \<mapsto>
                    output_loop E (sort_key length sentences) [])\<rparr>)
    \<and> sorted (map length (sort_key length sentences))
    \<and> mset (sort_key length sentences) = mset sentences
    \<and> (\<forall>k. filter (\<lambda>s. length s = k) (sort_key length sentences)
             = filter (\<lambda>s. length s = k) sentences)
    \<and> (\<forall>a b c d :: string. map length [a, b, c, d] = [5, 3, 5, 1] \<longrightarrow>
          sort_key length [a, b, c, d] = [d, b, a, c]
          \<and> map length (sort_key length [a, b, c, d]) = [1, 3, 5, 5])
    \<and> (\<exists>root ext. splitext outfile = (root, ext) \<and> root @ ext = outfile
          \<and> insert_thing_into_filename ''-sort'' outfile = root @ ''-sort'' @ ext
          \<and> (ext = [] \<or> hd ext = CHR ''.'' \<and> CHR ''.'' \<notin> set (tl ext) \<and> CHR ''/'' \<notin> set ext))
    \<and> insert_thing_into_filename ''-sort'' outfile \<noteq> outfile
    \<and> insert_thing_into_filename ''-sort'' ''output.log'' = ''output-sort.log''"
proof -
  have "args w1 = Some args_correct"
    using gutengrep_filter_args [OF assms(1)] assms(2) by simp
  then have run: "gutengrep E regex inspec outfile ignore_case True cache correct w
           = (Inr (),
              w1\<lparr>fs := (fs w1)
                 (outfile \<mapsto> output_loop E sentences [],
                  insert_thing_into_filename ''-sort'' outfile \<mapsto>
                    output_loop E (sort_key length sentences) [])\<rparr>)"
    using assms(1,3) by (simp add: gutengrep_def gutengrep_report_def run_defs output_file_def)
  have ascending: "sorted (map length (sort_key length sentences))"
    by simp
  have same: "mset (sort_key length sentences) = mset sentences"
    by simp
  have stable: "\<forall>k. filter (\<lambda>s. length s = k) (sort_key length sentences)
          = filter (\<lambda>s. length s = k) sentences"
    by (simp add: sort_key_stable)
  have example: "\<forall>a b c d :: string. map length [a, b, c, d] = [5, 3, 5, 1] \<longrightarrow>
          sort_key length [a, b, c, d] = [d, b, a, c]
          \<and> map length (sort_key length [a, b, c, d]) = [1, 3, 5, 5]"
  proof (intro allI impI)
    fix a b c d :: string
    assume l: "map length [a, b, c, d] = [5, 3, 5, 1]"
    from sort_key_length_example [OF l] l
    show "sort_key length [a, b, c, d] = [d, b, a, c]
          \<and> map length (sort_key length [a, b, c, d]) = [1, 3, 5, 5]"
      by simp
  qed
  obtain root ext where s: "splitext outfile = (root, ext)"
    by (cases "splitext outfile")
  have "ext = [] \<or> hd ext = CHR ''.'' \<and> CHR ''.'' \<notin> set (tl ext) \<and> CHR ''/'' \<notin> set ext"
    using splitext_ext [OF s] by blast
  with s have path: "\<exists>root ext. splitext outfile = (root, ext) \<and> root @ ext = outfile
          \<and> insert_thing_into_filename ''-sort'' outfile = root @ ''-sort'' @ ext
          \<and> (ext = [] \<or> hd ext = CHR ''.'' \<and> CHR ''.'' \<notin> set (tl ext) \<and> CHR ''/'' \<notin> set ext)"
    using splitext_append [OF s] by (simp add: insert_thing_into_filename_def)
  have other: "insert_thing_into_filename ''-sort'' outfile \<noteq> outfile"
    by (rule insert_thing_longer) simp
  have log: "insert_thing_into_filename ''-sort'' ''output.log'' = ''output-sort.log''"
    by code_simp
  show ?thesis
    using run ascending same stable example path other log by (intro conjI) assumption+
qed

text \<open>
  The theorem at a run that matches two sentences, the longer one first, and at four
  sentences of lengths 5, 3, 5, 1.
\<close>

theorem sorted_second_pass_witness:
  "fst (gutengrep_filter demo_env ''h'' (Some ''*.txt'') False False demo_world)
     = Inr [''The whale.'', '' A ship.'']
   \<and> args demo_world = Some False
   \<and> fst (gutengrep demo_env ''h'' (Some ''*.txt'') ''output.log'' False True False False
            demo_world) = Inr ()
   \<and> fs (snd (gutengrep demo_env ''h'' (Some ''*.txt'') ''output.log'' False True False False
                demo_world)) ''output.log''
       = Some (''The whale.'' @ [CHR 0x0A, CHR 0x0A] @ '' A ship.'' @ [CHR 0x0A, CHR 0x0A])
   \<and> fs (snd (gutengrep demo_env ''h'' (Some ''*.txt'') ''output.log'' False True False False
                demo_world)) ''output-sort.log''
       = Some ('' A ship.'' @ [CHR 0x0A, CHR 0x0A] @ ''The whale.'' @ [CHR 0x0A, CHR 0x0A])
   \<and> map length [''aaaaa'', ''bbb'', ''ccccc'', ''d''] = [5, 3, 5, 1]
   \<and> sort_key length [''aaaaa'', ''bbb'', ''ccccc'', ''d''] = [''d'', ''bbb'', ''aaaaa'', ''ccccc'']"
proof -
  have f: "fst (gutengrep_filter demo_env ''h'' (Some ''*.txt'') False False demo_world)
           = Inr [''The whale.'', '' A ship.'']"
    by (simp add: demo_defs)
  then obtain w1 where
    w1: "gutengrep_filter demo_env ''h'' (Some ''*.txt'') False False demo_world
         = (Inr [''The whale.'', '' A ship.''], w1)"
    by (cases "gutengrep_filter demo_env ''h'' (Some ''*.txt'') False False demo_world") simp
  have a: "args demo_world = Some False"
    by (simp add: demo_world_def)
  have l: "map length [''aaaaa'', ''bbb'', ''ccccc'', ''d''] = [5, 3, 5, 1]"
    by simp
  have o: "output_loop demo_env [''The whale.'', '' A ship.''] []
           = ''The whale.'' @ [CHR 0x0A, CHR 0x0A] @ '' A ship.'' @ [CHR 0x0A, CHR 0x0A]"
    by (simp add: demo_env_def format_text_def)
  have s: "output_loop demo_env (sort_key length [''The whale.'', '' A ship.'']) []
           = '' A ship.'' @ [CHR 0x0A, CHR 0x0A] @ ''The whale.'' @ [CHR 0x0A, CHR 0x0A]"
    by (simp add: demo_env_def format_text_def sort_key_def)
  have c: "[''The whale.'', '' A ship.'']
           = (if False then correct_those [''The whale.'', '' A ship.'']
              else [''The whale.'', '' A ship.''])"
    by simp
  note t = sorted_second_pass [OF w1 a c, of "''output.log''" False]
  from t have r: "gutengrep demo_env ''h'' (Some ''*.txt'') ''output.log'' False True False False
                    demo_world
           = (Inr (),
              w1\<lparr>fs := (fs w1)
                 (''output.log'' \<mapsto> output_loop demo_env [''The whale.'', '' A ship.''] [],
                  insert_thing_into_filename ''-sort'' ''output.log'' \<mapsto>
                    output_loop demo_env (sort_key length [''The whale.'', '' A ship.'']) [])\<rparr>)"
    by (rule conjunct1)
  note t2 = t [THEN conjunct2, THEN conjunct2, THEN conjunct2, THEN conjunct2]
  have n: "insert_thing_into_filename ''-sort'' ''output.log'' = ''output-sort.log''"
    by (rule t2 [THEN conjunct2, THEN conjunct2, THEN conjunct2])
  have e: "sort_key length [''aaaaa'', ''bbb'', ''ccccc'', ''d'']
           = [''d'', ''bbb'', ''aaaaa'', ''ccccc'']"
    by (rule t2 [THEN conjunct1, rule_format, OF l, THEN conjunct1])
  show ?thesis
    unfolding r n using f a l e o s by simp
qed

end
